theory Spec2Isabelle
  imports Main "HOL-Library.Multiset"
begin

section \<open>Text: code points, whitespace, trimming\<close>

text \<open>
  A Python \<open>str\<close> is a sequence of Unicode code points. A code point is a natural
  number; \<open>ustr\<close> turns an ASCII literal into the text it denotes.
\<close>

type_synonym codepoint = nat
type_synonym ustring = "codepoint list"

definition ustr :: "string \<Rightarrow> ustring" where
  "ustr s = map of_char s"

text \<open>
  \<open>str.isspace\<close> on one character, which is also what \<open>str.strip()\<close> removes and what
  the class \<open>\s\<close> of a \<open>str\<close> pattern matches: the fixed whitespace set of CPython.
\<close>

definition py_isspace :: "codepoint \<Rightarrow> bool" where
  "py_isspace c \<longleftrightarrow>
     (9 \<le> c \<and> c \<le> 13) \<or> (28 \<le> c \<and> c \<le> 32) \<or> c = 133 \<or> c = 160 \<or> c = 5760 \<or>
     (8192 \<le> c \<and> c \<le> 8202) \<or> c = 8232 \<or> c = 8233 \<or> c = 8239 \<or> c = 8287 \<or>
     c = 12288"

text \<open>\<open>value.strip()\<close>: leading and trailing whitespace removed.\<close>

definition py_strip :: "ustring \<Rightarrow> ustring" where
  "py_strip s = rev (dropWhile py_isspace (rev (dropWhile py_isspace s)))"

text \<open>
  \<open>re.sub(r"\s+", " ", value)\<close>: scanning from the left, every maximal run of whitespace
  is replaced by one space (code point 32).
\<close>

function re_sub_ws :: "ustring \<Rightarrow> ustring" where
  "re_sub_ws [] = []"
| "re_sub_ws (c # cs) =
     (if py_isspace c then 32 # re_sub_ws (dropWhile py_isspace cs) else c # re_sub_ws cs)"
  by pat_completeness auto
termination
  by (relation "measure length") (auto simp: length_dropWhile_le less_Suc_eq_le)

section \<open>The Unicode tables\<close>

text \<open>
  \<open>normalize_text\<close> calls three functions of the Python runtime that read the Unicode
  character database: \<open>unicodedata.normalize("NFKD", s)\<close>, \<open>unicodedata.combining(ch)\<close>
  and \<open>str.lower()\<close>. The database is not part of the program, so it is a parameter of
  the model. \<open>nfd\<close> is the canonical decomposition \<open>unicodedata.normalize("NFD", s)\<close>,
  which the program never calls; it is here to state the documented algorithm.
\<close>

record unicode_db =
  nfkd :: "ustring \<Rightarrow> ustring"
  nfd :: "ustring \<Rightarrow> ustring"
  combining :: "codepoint \<Rightarrow> nat"
  lower :: "ustring \<Rightarrow> ustring"

section \<open>Text Normalizer\<close>

text \<open>
  \<^verbatim>\<open>
  def normalize_text(value: str) -> str:
      if not value:
          return ""
      value = unicodedata.normalize("NFKD", value)
      value = "".join(ch for ch in value if not unicodedata.combining(ch))
      value = value.lower().strip()
      value = re.sub(r"\s+", " ", value)
      return value
  \<close>
\<close>

definition normalize_text :: "unicode_db \<Rightarrow> ustring \<Rightarrow> ustring" where
  "normalize_text U v =
     (if v = [] then []
      else let v1 = nfkd U v;
               v2 = filter (\<lambda>ch. combining U ch = 0) v1;
               v3 = py_strip (lower U v2)
           in re_sub_ws v3)"

definition normalize_key :: "unicode_db \<Rightarrow> ustring \<Rightarrow> ustring \<Rightarrow> ustring \<times> ustring" where
  "normalize_key U t a = (normalize_text U t, normalize_text U a)"

section \<open>Reconciliation Matcher\<close>

text \<open>
  An imported track is the dictionary \<open>{"title": ..., "artist": ...}\<close> that the parser
  builds; both keys are always present, so the defaults of \<open>track.get(key, "")\<close> are
  never taken. A playlist item is the remote object, of which the program reads five
  attributes; the three textual ones may be absent (\<open>None\<close>).
\<close>

record track =
  title :: ustring
  artist :: ustring

record plex_item =
  item_title :: "ustring option"
  grandparentTitle :: "ustring option"
  originalTitle :: "ustring option"
  ratingKey :: int
  playlistItemID :: int

text \<open>\<open>x or y\<close> on strings that may be \<open>None\<close>: \<open>x\<close> when it is a non-empty string.\<close>

definition truthy :: "ustring option \<Rightarrow> bool" where
  "truthy x \<longleftrightarrow> (case x of None \<Rightarrow> False | Some s \<Rightarrow> s \<noteq> [])"

definition py_or :: "ustring option \<Rightarrow> ustring option \<Rightarrow> ustring option" where
  "py_or x y = (if truthy x then x else y)"

definition or_empty :: "ustring option \<Rightarrow> ustring" where
  "or_empty x = (case x of None \<Rightarrow> [] | Some s \<Rightarrow> s)"

text \<open>\<open>getattr(item, "title", "") or ""\<close> and the artist with its two fallbacks.\<close>

definition title_of :: "plex_item \<Rightarrow> ustring" where
  "title_of item = or_empty (py_or (item_title item) (Some []))"

definition artist_of :: "plex_item \<Rightarrow> ustring" where
  "artist_of item =
     or_empty (py_or (py_or (grandparentTitle item) (originalTitle item)) (Some []))"

definition item_key :: "unicode_db \<Rightarrow> plex_item \<Rightarrow> ustring \<times> ustring" where
  "item_key U item = normalize_key U (title_of item) (artist_of item)"

text \<open>\<open>d.setdefault(key, []).append(item)\<close> on a dictionary of lists.\<close>

definition setdefault_append :: "('k \<rightharpoonup> 'v list) \<Rightarrow> 'k \<Rightarrow> 'v \<Rightarrow> ('k \<rightharpoonup> 'v list)" where
  "setdefault_append d k v = d(k \<mapsto> (case d k of None \<Rightarrow> [] | Some l \<Rightarrow> l) @ [v])"

text \<open>\<open>d.get(key, [])\<close>.\<close>

definition get_bucket :: "('k \<rightharpoonup> 'v list) \<Rightarrow> 'k \<Rightarrow> 'v list" where
  "get_bucket d k = (case d k of None \<Rightarrow> [] | Some l \<Rightarrow> l)"

text \<open>The first loop: the two indexes, filled in playlist order.\<close>

fun build_by_title_artist ::
  "unicode_db \<Rightarrow> (ustring \<times> ustring \<rightharpoonup> plex_item list) \<Rightarrow> plex_item list
     \<Rightarrow> (ustring \<times> ustring \<rightharpoonup> plex_item list)" where
  "build_by_title_artist U d [] = d"
| "build_by_title_artist U d (item # items) =
     build_by_title_artist U (setdefault_append d (item_key U item) item) items"

fun build_by_title ::
  "unicode_db \<Rightarrow> (ustring \<rightharpoonup> plex_item list) \<Rightarrow> plex_item list \<Rightarrow> (ustring \<rightharpoonup> plex_item list)" where
  "build_by_title U d [] = d"
| "build_by_title U d (item # items) =
     build_by_title U (setdefault_append d (normalize_text U (title_of item)) item) items"

text \<open>
  The inner \<open>for cand in bucket: if cand.ratingKey not in used_rating_keys: picked = cand;
  break\<close>: the first candidate of the bucket whose rating key is unused.
\<close>

fun first_unused :: "int set \<Rightarrow> plex_item list \<Rightarrow> plex_item option" where
  "first_unused used [] = None"
| "first_unused used (cand # cands) =
     (if ratingKey cand \<notin> used then Some cand else first_unused used cands)"

text \<open>One imported track: the exact bucket first, the title bucket when it gave nothing.\<close>

definition pick ::
  "unicode_db \<Rightarrow> (ustring \<times> ustring \<rightharpoonup> plex_item list) \<Rightarrow> (ustring \<rightharpoonup> plex_item list)
     \<Rightarrow> int set \<Rightarrow> track \<Rightarrow> plex_item option" where
  "pick U by_title_artist by_title used t =
     (case first_unused used (get_bucket by_title_artist (normalize_key U (title t) (artist t))) of
        Some cand \<Rightarrow> Some cand
      | None \<Rightarrow> first_unused used (get_bucket by_title (normalize_text U (title t))))"

text \<open>
  The loop over the imported tracks, with its three variables \<open>used_rating_keys\<close>,
  \<open>selected\<close> and \<open>missing\<close>.
\<close>

fun match_loop ::
  "unicode_db \<Rightarrow> (ustring \<times> ustring \<rightharpoonup> plex_item list) \<Rightarrow> (ustring \<rightharpoonup> plex_item list)
     \<Rightarrow> int set \<times> plex_item list \<times> track list \<Rightarrow> track list
     \<Rightarrow> int set \<times> plex_item list \<times> track list" where
  "match_loop U bta bt st [] = st"
| "match_loop U bta bt (used, selected, missing) (t # ts) =
     (case pick U bta bt used t of
        Some picked \<Rightarrow>
          match_loop U bta bt (insert (ratingKey picked) used, selected @ [picked], missing) ts
      | None \<Rightarrow> match_loop U bta bt (used, selected, missing @ [t]) ts)"

record plan =
  matches :: nat
  missing_in_plex :: "track list"
  new_order_ids :: "int list"
  new_order_titles :: "(ustring option \<times> ustring) list"
  current_count :: nat

definition build_reorder_plan :: "unicode_db \<Rightarrow> plex_item list \<Rightarrow> track list \<Rightarrow> plan" where
  "build_reorder_plan U plex_items imported_tracks =
     (if plex_items = [] then
        \<lparr>matches = 0, missing_in_plex = imported_tracks, new_order_ids = [],
         new_order_titles = [], current_count = 0\<rparr>
      else
        let by_title_artist = build_by_title_artist U Map.empty plex_items;
            by_title = build_by_title U Map.empty plex_items;
            (used_rating_keys, selected, missing) =
               match_loop U by_title_artist by_title ({}, [], []) imported_tracks;
            trailing = filter (\<lambda>item. ratingKey item \<notin> used_rating_keys) plex_items;
            desired = selected @ trailing
        in \<lparr>matches = length selected, missing_in_plex = missing,
            new_order_ids = map playlistItemID desired,
            new_order_titles = map (\<lambda>item. (item_title item, artist_of item)) desired,
            current_count = length plex_items\<rparr>)"

section \<open>An excerpt of the Unicode tables\<close>

text \<open>
  The entries of the Unicode character database for the code points used in the
  examples below: the ASCII letters, U+00B2 SUPERSCRIPT TWO (compatibility decomposition
  to the digit 2, no canonical one), U+00C9 and U+00E9 (E and e with acute: base letter
  followed by U+0301), and U+0301 COMBINING ACUTE ACCENT (combining class 230). Every
  other code point is given no decomposition, class 0 and no lower-case mapping.
\<close>

definition compat_decomp :: "codepoint \<Rightarrow> ustring" where
  "compat_decomp c =
     (if c = 201 then [69, 769] else if c = 233 then [101, 769]
      else if c = 178 then [50] else [c])"

definition canon_decomp :: "codepoint \<Rightarrow> ustring" where
  "canon_decomp c =
     (if c = 201 then [69, 769] else if c = 233 then [101, 769] else [c])"

definition excerpt_combining :: "codepoint \<Rightarrow> nat" where
  "excerpt_combining c = (if c = 769 then 230 else 0)"

definition excerpt_lower :: "codepoint \<Rightarrow> codepoint" where
  "excerpt_lower c = (if 65 \<le> c \<and> c \<le> 90 then c + 32 else if c = 201 then 233 else c)"

definition ucd_excerpt :: unicode_db where
  "ucd_excerpt =
     \<lparr>nfkd = (\<lambda>s. concat (map compat_decomp s)),
      nfd = (\<lambda>s. concat (map canon_decomp s)),
      combining = excerpt_combining,
      lower = map excerpt_lower\<rparr>"

section \<open>Auxiliary notions for the matcher\<close>

text \<open>
  The invariant of the matching loop: the selected items are items of the playlist, the
  used rating keys are exactly theirs, and no rating key was selected twice.
\<close>

definition loop_inv :: "plex_item list \<Rightarrow> int set \<Rightarrow> plex_item list \<Rightarrow> bool" where
  "loop_inv items used selected \<longleftrightarrow>
     set selected \<subseteq> set items \<and> used = ratingKey ` set selected
     \<and> distinct (map ratingKey selected)"

text \<open>The list \<open>desired\<close> of \<open>build_reorder_plan\<close>, whose identifiers are \<open>new_order_ids\<close>.\<close>

definition desired_of :: "unicode_db \<Rightarrow> plex_item list \<Rightarrow> track list \<Rightarrow> plex_item list" where
  "desired_of U items ts =
     (if items = [] then [] else
      case match_loop U (build_by_title_artist U Map.empty items)
             (build_by_title U Map.empty items) ({}, [], []) ts of
        (used, selected, missing) \<Rightarrow>
          selected @ filter (\<lambda>item. ratingKey item \<notin> used) items)"

text \<open>Sample playlist items and an imported track.\<close>

definition song_x :: plex_item where
  "song_x = \<lparr>item_title = Some (ustr ''Song''), grandparentTitle = Some (ustr ''X''),
      originalTitle = None, ratingKey = 1, playlistItemID = 10\<rparr>"

definition song_y :: plex_item where
  "song_y = \<lparr>item_title = Some (ustr ''Song''), grandparentTitle = None,
      originalTitle = Some (ustr ''Y''), ratingKey = 2, playlistItemID = 11\<rparr>"

definition track_song_x :: track where
  "track_song_x = \<lparr>title = ustr ''song'', artist = ustr '' x ''\<rparr>"

definition song_x_again :: plex_item where
  "song_x_again = \<lparr>item_title = Some (ustr ''Song''), grandparentTitle = Some (ustr ''X''),
      originalTitle = None, ratingKey = 1, playlistItemID = 11\<rparr>"

section \<open>The documented normalization algorithm\<close>

text \<open>
  The algorithm as the specification words it: (1) empty input gives empty output;
  (2) decompose; (3) drop the combining marks; (4) lower-case; (5) trim leading and
  trailing whitespace; (6) collapse every run of whitespace to a single space. The
  decomposition is a parameter, so that the canonical and the compatibility
  decomposition can both be put in its place. A combining mark is a character of
  non-zero combining class.
\<close>

fun collapse_runs :: "ustring \<Rightarrow> ustring" where
  "collapse_runs [] = []"
| "collapse_runs [c] = [if py_isspace c then 32 else c]"
| "collapse_runs (c # d # cs) =
     (if py_isspace c \<and> py_isspace d then collapse_runs (d # cs)
      else (if py_isspace c then 32 else c) # collapse_runs (d # cs))"

definition trim :: "ustring \<Rightarrow> ustring" where
  "trim s = dropWhile py_isspace (rev (dropWhile py_isspace (rev s)))"

definition reference_normalize :: "(ustring \<Rightarrow> ustring) \<Rightarrow> unicode_db \<Rightarrow> ustring \<Rightarrow> ustring" where
  "reference_normalize decompose U x =
     (if x = [] then []
      else collapse_runs (trim (lower U (filter (\<lambda>ch. combining U ch = 0) (decompose x)))))"

section \<open>Properties of the Unicode tables\<close>

text \<open>
  A character is plain when none of the three table-driven steps changes it. The
  tables are regular when a text of plain characters is left alone by decomposition
  and by lower-casing, when decomposing, dropping marks and lower-casing leaves only
  plain characters, and when the space is plain. \<open>ucd_cafe\<close> lists the table entries
  behind the example CAFE with an acute accent on the E.
\<close>

definition plain_char :: "unicode_db \<Rightarrow> codepoint \<Rightarrow> bool" where
  "plain_char U c \<longleftrightarrow> nfkd U [c] = [c] \<and> combining U c = 0 \<and> lower U [c] = [c]"

definition ucd_regular :: "unicode_db \<Rightarrow> bool" where
  "ucd_regular U \<longleftrightarrow>
     (\<forall>s. (\<forall>c \<in> set s. plain_char U c) \<longrightarrow> nfkd U s = s \<and> lower U s = s)
     \<and> (\<forall>x. \<forall>c \<in> set (lower U (filter (\<lambda>ch. combining U ch = 0) (nfkd U x))). plain_char U c)
     \<and> plain_char U 32"

definition ucd_cafe :: "unicode_db \<Rightarrow> bool" where
  "ucd_cafe U \<longleftrightarrow>
     nfkd U [67, 65, 70, 201] = [67, 65, 70, 69, 769]
     \<and> nfkd U [99, 97, 102, 101] = [99, 97, 102, 101]
     \<and> combining U 769 \<noteq> 0
     \<and> (\<forall>c \<in> set [67, 65, 70, 69, 99, 97, 102, 101]. combining U c = 0)
     \<and> lower U [67, 65, 70, 69] = [99, 97, 102, 101]
     \<and> lower U [99, 97, 102, 101] = [99, 97, 102, 101]"

text \<open>A text is trimmed when it neither starts nor ends with whitespace.\<close>

definition trimmed :: "ustring \<Rightarrow> bool" where
  "trimmed s \<longleftrightarrow> s = [] \<or> (\<not> py_isspace (hd s) \<and> \<not> py_isspace (last s))"

section \<open>Reorder Applicator\<close>

text \<open>
  The loop of the \<open>reorder\<close> handler:
  \<^verbatim>\<open>
  playlist_items = {item.playlistItemID: item for item in playlist.items()}
  previous = None
  for item_id in ordered_ids:
      item = playlist_items.get(item_id)
      if not item:
          continue
      if previous is None:
          playlist.moveItem(item)
      else:
          playlist.moveItem(item, after=previous)
      previous = item
  \<close>
  \<open>playlist.moveItem\<close> is a call to the remote server. The server is a parameter of the
  model: a function from the state of the remote playlist and a move to the new state, or
  to the error the call raises, which ends the loop.
\<close>

datatype move = MoveToHead plex_item | MoveAfter plex_item plex_item

fun playlist_items_of :: "(int \<rightharpoonup> plex_item) \<Rightarrow> plex_item list \<Rightarrow> (int \<rightharpoonup> plex_item)" where
  "playlist_items_of d [] = d"
| "playlist_items_of d (item # items) = playlist_items_of (d(playlistItemID item \<mapsto> item)) items"

fun reorder_loop ::
  "('pl \<Rightarrow> move \<Rightarrow> 'e + 'pl) \<Rightarrow> (int \<rightharpoonup> plex_item) \<Rightarrow> plex_item option \<Rightarrow> 'pl \<Rightarrow> int list
     \<Rightarrow> 'e + 'pl" where
  "reorder_loop moveItem playlist_items previous playlist [] = Inr playlist"
| "reorder_loop moveItem playlist_items previous playlist (item_id # ordered_ids) =
     (case playlist_items item_id of
        None \<Rightarrow> reorder_loop moveItem playlist_items previous playlist ordered_ids
      | Some item \<Rightarrow>
          (case moveItem playlist
                  (case previous of None \<Rightarrow> MoveToHead item | Some p \<Rightarrow> MoveAfter item p) of
             Inl e \<Rightarrow> Inl e
           | Inr playlist' \<Rightarrow>
               reorder_loop moveItem playlist_items (Some item) playlist' ordered_ids))"

definition reorder ::
  "('pl \<Rightarrow> move \<Rightarrow> 'e + 'pl) \<Rightarrow> plex_item list \<Rightarrow> 'pl \<Rightarrow> int list \<Rightarrow> 'e + 'pl" where
  "reorder moveItem live_items playlist ordered_ids =
     reorder_loop moveItem (playlist_items_of Map.empty live_items) None playlist ordered_ids"

text \<open>
  The documented behaviour: the identifiers that resolve in the live item map, in target
  order; the first resolved item is moved to the head, each later one after the item
  resolved before it; the moves are made in this order, up to the first that fails.
\<close>

definition resolved :: "(int \<rightharpoonup> plex_item) \<Rightarrow> int list \<Rightarrow> plex_item list" where
  "resolved live ids = map (\<lambda>i. the (live i)) (filter (\<lambda>i. i \<in> dom live) ids)"

definition planned_moves :: "plex_item list \<Rightarrow> move list" where
  "planned_moves items =
     (case items of
        [] \<Rightarrow> []
      | first # later \<Rightarrow>
          MoveToHead first # map (\<lambda>(item, prev). MoveAfter item prev) (zip later (first # later)))"

fun run_moves :: "('pl \<Rightarrow> move \<Rightarrow> 'e + 'pl) \<Rightarrow> 'pl \<Rightarrow> move list \<Rightarrow> 'e + 'pl" where
  "run_moves moveItem playlist [] = Inr playlist"
| "run_moves moveItem playlist (m # ms) =
     (case moveItem playlist m of Inl e \<Rightarrow> Inl e | Inr playlist' \<Rightarrow> run_moves moveItem playlist' ms)"

definition moves_after :: "plex_item option \<Rightarrow> plex_item list \<Rightarrow> move list" where
  "moves_after previous items =
     (case previous of
        None \<Rightarrow> planned_moves items
      | Some p \<Rightarrow> map (\<lambda>(item, prev). MoveAfter item prev) (zip items (p # items)))"

section \<open>The caches of the web application\<close>

text \<open>
  The two process-wide dictionaries \<open>UPLOAD_CACHE\<close> and \<open>OAUTH_CACHE\<close>, and what each
  request handler does to them. Of an OAuth session only the creation time matters here
  (seconds, as \<open>time.time()\<close> returns them). A request carries what the handler draws from
  its environment: the identifier from \<open>uuid.uuid4()\<close>, the clock, the answer of the login
  check. \<open>Upload\<close> is an upload that parsed to a non-empty track list; \<open>preview\<close> and
  \<open>reorder\<close> only read \<open>UPLOAD_CACHE\<close>.
\<close>

record app_state =
  UPLOAD_CACHE :: "string \<rightharpoonup> track list"
  OAUTH_CACHE :: "string \<rightharpoonup> int"

definition OAUTH_SESSION_TTL_SEC :: int where
  "OAUTH_SESSION_TTL_SEC = 10 * 60"

definition cleanup_oauth_sessions :: "int \<Rightarrow> app_state \<Rightarrow> app_state" where
  "cleanup_oauth_sessions now s =
     s\<lparr>OAUTH_CACHE :=
          (\<lambda>session_id.
             case OAUTH_CACHE s session_id of
               None \<Rightarrow> None
             | Some created_at \<Rightarrow>
                 if now - created_at > OAUTH_SESSION_TTL_SEC then None else Some created_at)\<rparr>"

datatype request =
    Upload string "track list"
  | Preview string
  | Reorder string
  | AuthStart int string
  | AuthStatus int string bool

datatype api_error = Upload_not_found_or_expired

definition find_upload :: "app_state \<Rightarrow> string \<Rightarrow> api_error + track list" where
  "find_upload s upload_id =
     (if upload_id = [] then Inl Upload_not_found_or_expired
      else case UPLOAD_CACHE s upload_id of
             None \<Rightarrow> Inl Upload_not_found_or_expired
           | Some tracks \<Rightarrow> Inr tracks)"

fun handle :: "app_state \<Rightarrow> request \<Rightarrow> app_state" where
  "handle s (Upload upload_id parsed) = s\<lparr>UPLOAD_CACHE := (UPLOAD_CACHE s)(upload_id \<mapsto> parsed)\<rparr>"
| "handle s (Preview upload_id) = s"
| "handle s (Reorder upload_id) = s"
| "handle s (AuthStart now session_id) =
     (let s' = cleanup_oauth_sessions now s
      in s'\<lparr>OAUTH_CACHE := (OAUTH_CACHE s')(session_id \<mapsto> now)\<rparr>)"
| "handle s (AuthStatus now session_id logged_in) =
     (let s' = cleanup_oauth_sessions now s
      in if session_id \<noteq> [] \<and> session_id \<in> dom (OAUTH_CACHE s') \<and> logged_in
         then s'\<lparr>OAUTH_CACHE := (OAUTH_CACHE s')(session_id := None)\<rparr> else s')"

definition serve :: "app_state \<Rightarrow> request list \<Rightarrow> app_state" where
  "serve s reqs = foldl handle s reqs"

definition empty_state :: app_state where
  "empty_state = \<lparr>UPLOAD_CACHE = Map.empty, OAUTH_CACHE = Map.empty\<rparr>"

section \<open>Evaluation rules\<close>

lemmas excerpt_simps = ucd_excerpt_def compat_decomp_def canon_decomp_def excerpt_combining_def
  excerpt_lower_def

lemmas text_simps = ustr_def normalize_text_def normalize_key_def py_strip_def py_isspace_def
  Let_def

lemmas matcher_simps = build_reorder_plan_def pick_def get_bucket_def setdefault_append_def
  item_key_def title_of_def artist_of_def py_or_def or_empty_def truthy_def

section \<open>The indexes and the choice of a candidate\<close>

lemma get_bucket_setdefault_append:
  "get_bucket (setdefault_append d k v) k' = get_bucket d k' @ (if k = k' then [v] else [])"
  by (simp add: get_bucket_def setdefault_append_def)

lemma get_bucket_by_title_artist:
  "get_bucket (build_by_title_artist U d items) k
     = get_bucket d k @ filter (\<lambda>i. item_key U i = k) items"
  by (induction items arbitrary: d) (auto simp: get_bucket_setdefault_append)

lemma get_bucket_by_title:
  "get_bucket (build_by_title U d items) k
     = get_bucket d k @ filter (\<lambda>i. normalize_text U (title_of i) = k) items"
  by (induction items arbitrary: d) (auto simp: get_bucket_setdefault_append)

lemma get_bucket_empty: "get_bucket Map.empty k = []"
  by (simp add: get_bucket_def)

lemma first_unused_find: "first_unused used cands = find (\<lambda>c. ratingKey c \<notin> used) cands"
  by (induction cands) auto

lemma first_unused_Some:
  "first_unused used cands = Some p \<Longrightarrow> p \<in> set cands \<and> ratingKey p \<notin> used"
  by (induction cands) (auto split: if_splits)

lemma first_unused_None:
  "first_unused used cands = None \<longleftrightarrow> (\<forall>c \<in> set cands. ratingKey c \<in> used)"
  by (induction cands) auto

lemma pick_Some:
  assumes "pick U (build_by_title_artist U Map.empty items) (build_by_title U Map.empty items)
             used t = Some p"
  shows "p \<in> set items \<and> ratingKey p \<notin> used"
  using assms
  by (auto simp: pick_def get_bucket_by_title_artist get_bucket_by_title get_bucket_empty
           split: option.splits dest!: first_unused_Some)

lemma first_unused_filter:
  "first_unused used (filter P cands) = find (\<lambda>c. P c \<and> ratingKey c \<notin> used) cands"
  by (induction cands) auto

section \<open>Conservation of the imported tracks\<close>

lemma match_loop_count:
  "match_loop U bta bt (used, selected, missing) ts = (used', selected', missing') \<Longrightarrow>
   length selected' + length missing' = length selected + length missing + length ts"
proof (induction ts arbitrary: used selected missing)
  case Nil
  then show ?case by simp
next
  case (Cons t ts)
  show ?case
  proof (cases "pick U bta bt used t")
    case None
    with Cons.prems have
      "match_loop U bta bt (used, selected, missing @ [t]) ts = (used', selected', missing')"
      by simp
    from Cons.IH [OF this] show ?thesis by simp
  next
    case (Some picked)
    with Cons.prems have
      "match_loop U bta bt (insert (ratingKey picked) used, selected @ [picked], missing) ts
         = (used', selected', missing')"
      by simp
    from Cons.IH [OF this] show ?thesis by simp
  qed
qed

text \<open>
  C2. For every imported track sequence and every remote snapshot, the plan satisfies
  matches + |missing_in_plex| = |imported|: each imported record is counted exactly
  once, as matched or as missing.
\<close>

theorem plan_conservation:
  "matches (build_reorder_plan U plex_items imported_tracks)
     + length (missing_in_plex (build_reorder_plan U plex_items imported_tracks))
   = length imported_tracks"
proof (cases "plex_items = []")
  case True
  then show ?thesis by (simp add: build_reorder_plan_def)
next
  case False
  obtain used selected missing where
    m: "match_loop U (build_by_title_artist U Map.empty plex_items)
          (build_by_title U Map.empty plex_items) ({}, [], []) imported_tracks
        = (used, selected, missing)"
    by (metis prod_cases3)
  from match_loop_count [OF m] have "length selected + length missing = length imported_tracks"
    by simp
  with False m show ?thesis by (simp add: build_reorder_plan_def Let_def)
qed

section \<open>The target order\<close>

lemma match_loop_inv:
  assumes "match_loop U (build_by_title_artist U Map.empty items)
             (build_by_title U Map.empty items) (used, selected, missing) ts
           = (used', selected', missing')"
    and "loop_inv items used selected"
  shows "loop_inv items used' selected'"
  using assms
proof (induction ts arbitrary: used selected missing)
  case Nil
  then show ?case by simp
next
  case (Cons t ts)
  let ?bta = "build_by_title_artist U Map.empty items"
  let ?bt = "build_by_title U Map.empty items"
  show ?case
  proof (cases "pick U ?bta ?bt used t")
    case None
    with Cons.prems(1) have "match_loop U ?bta ?bt (used, selected, missing @ [t]) ts
        = (used', selected', missing')" by simp
    from Cons.IH [OF this Cons.prems(2)] show ?thesis .
  next
    case (Some p)
    from pick_Some [OF Some] have p: "p \<in> set items" "ratingKey p \<notin> used" by simp_all
    from Some Cons.prems(1) have run:
      "match_loop U ?bta ?bt (insert (ratingKey p) used, selected @ [p], missing) ts
        = (used', selected', missing')" by simp
    from p Cons.prems(2) have "loop_inv items (insert (ratingKey p) used) (selected @ [p])"
      by (auto simp: loop_inv_def)
    from Cons.IH [OF run this] show ?thesis .
  qed
qed

lemma distinct_subset_mset2:
  assumes "distinct xs" "set xs \<subseteq> set ys"
  shows "mset xs \<subseteq># mset ys"
proof (rule mset_subset_eqI)
  fix a
  show "count (mset xs) a \<le> count (mset ys) a"
  proof (cases "a \<in> set xs")
    case True
    with assms(1) have "count (mset xs) a = 1" by (metis distinct_count_atmost_1)
    moreover from True assms(2) have "a \<in> set ys" by auto
    then have "0 < count (mset ys) a" by (simp only: count_greater_zero_iff set_mset_mset)
    ultimately show ?thesis by arith
  next
    case False
    then have "count (mset xs) a = 0" by (metis count_mset_0_iff)
    then show ?thesis by arith
  qed
qed

lemma desired_of_Nil: "desired_of U [] ts = []"
  by (simp add: desired_of_def)

lemma desired_of_run:
  "items \<noteq> [] \<Longrightarrow>
   match_loop U (build_by_title_artist U Map.empty items)
     (build_by_title U Map.empty items) ({}, [], []) ts = (used, selected, missing) \<Longrightarrow>
   desired_of U items ts = selected @ filter (\<lambda>item. ratingKey item \<notin> used) items"
  by (simp add: desired_of_def)

lemma new_order_ids_desired:
  "new_order_ids (build_reorder_plan U items ts) = map playlistItemID (desired_of U items ts)"
  by (cases "items = []")
     (auto simp: build_reorder_plan_def desired_of_def Let_def split: prod.splits)

lemma desired_sub: "mset (desired_of U items ts) \<subseteq># mset items"
proof (cases "items = []")
  case True
  then show ?thesis by (simp add: desired_of_Nil)
next
  case ne: False
  obtain used selected missing where
    m: "match_loop U (build_by_title_artist U Map.empty items)
          (build_by_title U Map.empty items) ({}, [], []) ts = (used, selected, missing)"
    by (metis prod_cases3)
  have "loop_inv items {} []" by (simp add: loop_inv_def)
  from match_loop_inv [OF m this] have inv: "loop_inv items used selected" .
  then have d: "distinct selected" by (auto simp: loop_inv_def distinct_map)
  from inv have "set selected \<subseteq> set (filter (\<lambda>item. ratingKey item \<in> used) items)"
    by (auto simp: loop_inv_def)
  with d have "mset selected \<subseteq># mset (filter (\<lambda>item. ratingKey item \<in> used) items)"
    by (rule distinct_subset_mset2)
  then have "mset selected + mset (filter (\<lambda>item. ratingKey item \<notin> used) items)
      \<subseteq># mset (filter (\<lambda>item. ratingKey item \<in> used) items)
          + mset (filter (\<lambda>item. ratingKey item \<notin> used) items)"
    by (simp only: mset_subset_eq_mono_add_right_cancel)
  also have "\<dots> = mset items" by (simp only: mset_filter multiset_partition [symmetric])
  finally show ?thesis by (simp add: desired_of_run [OF ne m])
qed

lemma desired_perm:
  assumes "distinct (map ratingKey items)"
  shows "mset (desired_of U items ts) = mset items"
proof (cases "items = []")
  case True
  then show ?thesis by (simp add: desired_of_Nil)
next
  case ne: False
  obtain used selected missing where
    m: "match_loop U (build_by_title_artist U Map.empty items)
          (build_by_title U Map.empty items) ({}, [], []) ts = (used, selected, missing)"
    by (metis prod_cases3)
  have "loop_inv items {} []" by (simp add: loop_inv_def)
  from match_loop_inv [OF m this] have inv: "loop_inv items used selected" .
  then have d: "distinct selected" by (auto simp: loop_inv_def distinct_map)
  from assms have inj: "inj_on ratingKey (set items)" and di: "distinct items"
    by (simp_all add: distinct_map)
  have "set selected = set (filter (\<lambda>item. ratingKey item \<in> used) items)"
  proof
    from inv show "set selected \<subseteq> set (filter (\<lambda>item. ratingKey item \<in> used) items)"
      by (auto simp: loop_inv_def)
  next
    show "set (filter (\<lambda>item. ratingKey item \<in> used) items) \<subseteq> set selected"
    proof
      fix x assume "x \<in> set (filter (\<lambda>item. ratingKey item \<in> used) items)"
      then have x: "x \<in> set items" "ratingKey x \<in> used" by simp_all
      with inv obtain s where s: "s \<in> set selected" "ratingKey s = ratingKey x"
        by (auto simp: loop_inv_def)
      with inv have "s \<in> set items" by (auto simp: loop_inv_def)
      with inj x(1) s(2) have "s = x" by (auto dest: inj_onD)
      with s(1) show "x \<in> set selected" by simp
    qed
  qed
  moreover from di have "distinct (filter (\<lambda>item. ratingKey item \<in> used) items)"
    by (rule distinct_filter)
  ultimately have "mset selected = mset (filter (\<lambda>item. ratingKey item \<in> used) items)"
    using d by (metis set_eq_iff_mset_eq_distinct)
  then have "mset selected + mset (filter (\<lambda>item. ratingKey item \<notin> used) items) = mset items"
    by (simp only: mset_filter multiset_partition [symmetric])
  then show ?thesis by (simp add: desired_of_run [OF ne m])
qed

text \<open>
  C1, as stated: whatever the playlist and the imported tracks, \<open>new_order_ids\<close> is a
  permutation of the playlist's item identifiers. It fails on a playlist that holds the
  same catalogue entry twice: the two items share their rating key, the first is
  selected, and the second is neither selected nor trailing, because \<open>trailing\<close> keeps
  the items whose rating key is unused.
\<close>

theorem target_order_drops_duplicate:
  "distinct (map playlistItemID [song_x, song_x_again])
   \<and> new_order_ids (build_reorder_plan ucd_excerpt [song_x, song_x_again]
        [\<lparr>title = ustr ''Song'', artist = ustr ''X''\<rparr>]) = [10]
   \<and> mset (new_order_ids (build_reorder_plan ucd_excerpt [song_x, song_x_again]
        [\<lparr>title = ustr ''Song'', artist = ustr ''X''\<rparr>]))
       \<noteq> mset (map playlistItemID [song_x, song_x_again])"
  by (simp add: song_x_def song_x_again_def matcher_simps excerpt_simps text_simps)

text \<open>
  C1, amended. For every imported track sequence and every remote snapshot,
  \<open>new_order_ids\<close> holds only item identifiers of the snapshot, each at most as often as
  the snapshot does (none is invented). When the rating keys of the snapshot are pairwise
  distinct, \<open>new_order_ids\<close> is a permutation of the snapshot's item identifiers (none is
  dropped), and when the item identifiers are pairwise distinct too, no two entries of
  \<open>new_order_ids\<close> are the same.
\<close>

theorem target_order_permutation:
  "mset (new_order_ids (build_reorder_plan U plex_items imported_tracks))
      \<subseteq># mset (map playlistItemID plex_items)
   \<and> (distinct (map ratingKey plex_items) \<longrightarrow>
        mset (new_order_ids (build_reorder_plan U plex_items imported_tracks))
          = mset (map playlistItemID plex_items)
        \<and> (distinct (map playlistItemID plex_items) \<longrightarrow>
             distinct (new_order_ids (build_reorder_plan U plex_items imported_tracks))))"
proof (intro conjI impI)
  show "mset (new_order_ids (build_reorder_plan U plex_items imported_tracks))
      \<subseteq># mset (map playlistItemID plex_items)"
    using image_mset_subseteq_mono [OF desired_sub [of U plex_items imported_tracks],
            of playlistItemID]
    by (simp add: new_order_ids_desired)
next
  assume "distinct (map ratingKey plex_items)"
  from desired_perm [OF this, of U imported_tracks]
  show p: "mset (new_order_ids (build_reorder_plan U plex_items imported_tracks))
          = mset (map playlistItemID plex_items)"
    by (metis mset_map new_order_ids_desired)
  assume "distinct (map playlistItemID plex_items)"
  with p show "distinct (new_order_ids (build_reorder_plan U plex_items imported_tracks))"
    by (metis mset_eq_imp_distinct_iff)
qed

theorem target_order_permutation_witness:
  "distinct (map ratingKey [song_y, song_x]) \<and> distinct (map playlistItemID [song_y, song_x])
   \<and> mset (new_order_ids (build_reorder_plan ucd_excerpt [song_y, song_x] [track_song_x]))
       = mset (map playlistItemID [song_y, song_x])
   \<and> distinct (new_order_ids (build_reorder_plan ucd_excerpt [song_y, song_x] [track_song_x]))
   \<and> new_order_ids (build_reorder_plan ucd_excerpt [song_y, song_x] [track_song_x]) = [10, 11]"
proof -
  have h1: "distinct (map ratingKey [song_y, song_x])" by (simp add: song_x_def song_y_def)
  have h2: "distinct (map playlistItemID [song_y, song_x])" by (simp add: song_x_def song_y_def)
  have v: "new_order_ids (build_reorder_plan ucd_excerpt [song_y, song_x] [track_song_x]) = [10, 11]"
    by (simp add: song_x_def song_y_def track_song_x_def matcher_simps excerpt_simps text_simps)
  from target_order_permutation [of ucd_excerpt "[song_y, song_x]" "[track_song_x]"] h1 h2 v
  show ?thesis by blast
qed
section \<open>Exact match before title-only match\<close>

text \<open>
  C8. Exact match is preferred over title-only match. Whatever rating keys are used so
  far, when some unused item of the playlist has the normalized (title, artist) key of the
  imported track, the item picked for the track is the earliest unused item with that
  exact key; it is that very item when no other unused item has the key. An item with the
  same normalized title and another artist is never picked in its place, wherever it
  stands in the playlist.
\<close>

theorem exact_match_preferred:
  assumes "a \<in> set plex_items"
    and "ratingKey a \<notin> used"
    and "item_key U a = normalize_key U (title t) (artist t)"
  shows "\<exists>p. pick U (build_by_title_artist U Map.empty plex_items)
                (build_by_title U Map.empty plex_items) used t = Some p
             \<and> find (\<lambda>c. item_key U c = normalize_key U (title t) (artist t)
                          \<and> ratingKey c \<notin> used) plex_items = Some p
             \<and> p \<in> set plex_items
             \<and> item_key U p = normalize_key U (title t) (artist t)
             \<and> ratingKey p \<notin> used
             \<and> ((\<forall>c \<in> set plex_items.
                    item_key U c = normalize_key U (title t) (artist t)
                      \<and> ratingKey c \<notin> used \<longrightarrow> c = a) \<longrightarrow> p = a)"
proof -
  let ?k = "normalize_key U (title t) (artist t)"
  let ?P = "\<lambda>c. item_key U c = ?k \<and> ratingKey c \<notin> used"
  from assms have "\<exists>c \<in> set plex_items. ?P c" by blast
  then obtain p where f: "find ?P plex_items = Some p"
    by (cases "find ?P plex_items") (auto simp: find_None_iff)
  then have p: "p \<in> set plex_items" "item_key U p = ?k" "ratingKey p \<notin> used"
    by (auto simp: find_Some_iff)
  have "first_unused used (get_bucket (build_by_title_artist U Map.empty plex_items) ?k)
          = Some p"
    using f by (simp add: get_bucket_by_title_artist get_bucket_empty first_unused_filter)
  then have "pick U (build_by_title_artist U Map.empty plex_items)
                (build_by_title U Map.empty plex_items) used t = Some p"
    by (simp add: pick_def)
  with f p show ?thesis by blast
qed

theorem exact_match_preferred_witness:
  "song_x \<in> set [song_y, song_x] \<and> ratingKey song_x \<notin> {}
   \<and> item_key ucd_excerpt song_x = normalize_key ucd_excerpt (title track_song_x) (artist track_song_x)
   \<and> normalize_text ucd_excerpt (title_of song_y) = normalize_text ucd_excerpt (title_of song_x)
   \<and> pick ucd_excerpt (build_by_title_artist ucd_excerpt Map.empty [song_y, song_x])
        (build_by_title ucd_excerpt Map.empty [song_y, song_x]) {} track_song_x = Some song_x"
proof -
  have h1: "song_x \<in> set [song_y, song_x]" by simp
  have h2: "ratingKey song_x \<notin> {}" by simp
  have h3: "item_key ucd_excerpt song_x
      = normalize_key ucd_excerpt (title track_song_x) (artist track_song_x)"
    by (simp add: song_x_def track_song_x_def matcher_simps excerpt_simps text_simps)
  have h4: "normalize_text ucd_excerpt (title_of song_y)
      = normalize_text ucd_excerpt (title_of song_x)"
    by (simp add: song_x_def song_y_def matcher_simps excerpt_simps text_simps)
  have only: "\<forall>c \<in> set [song_y, song_x].
      item_key ucd_excerpt c = normalize_key ucd_excerpt (title track_song_x) (artist track_song_x)
        \<and> ratingKey c \<notin> {} \<longrightarrow> c = song_x"
    by (simp add: song_x_def song_y_def track_song_x_def matcher_simps excerpt_simps text_simps)
  from exact_match_preferred [OF h1 h2 h3] only h1 h2 h3 h4 show ?thesis by blast
qed

section \<open>Whitespace: trimming and collapsing\<close>

lemma isspace_32: "py_isspace 32"
  by (simp add: py_isspace_def)

lemma collapse_runs_space:
  "py_isspace c \<Longrightarrow> collapse_runs (c # cs) = 32 # collapse_runs (dropWhile py_isspace cs)"
  by (induction cs arbitrary: c) auto

lemma collapse_runs_other:
  "\<not> py_isspace c \<Longrightarrow> collapse_runs (c # cs) = c # collapse_runs cs"
  by (cases cs) auto

lemma re_sub_ws_collapse: "re_sub_ws s = collapse_runs s"
  by (induction s rule: re_sub_ws.induct) (simp_all add: collapse_runs_space collapse_runs_other)

lemma dropWhile_rev_commute:
  "dropWhile P (rev (dropWhile P (rev s))) = rev (dropWhile P (rev (dropWhile P s)))"
proof (cases "\<forall>x \<in> set s. P x")
  case True
  then have d: "dropWhile P s = []" "dropWhile P (rev s) = []" by simp_all
  show ?thesis by (simp only: d rev.simps dropWhile.simps append_Nil)
next
  case False
  then have "\<exists>x \<in> set s. \<not> P x" by blast
  from split_list_first_prop [OF this]
  obtain a b c where s: "s = a @ b # c" and b: "\<not> P b" and a': "\<forall>y \<in> set a. \<not> \<not> P y"
    by blast
  from a' have a: "\<forall>x \<in> set a. P x" by blast
  from b have inner: "dropWhile P (rev (b # c)) = dropWhile P (rev c) @ [b]"
    by (simp add: dropWhile_append3)
  from a b have left: "dropWhile P s = b # c"
    by (simp add: s dropWhile_append2)
  from b have "dropWhile P (rev s) = dropWhile P (rev c) @ b # rev a"
    by (simp add: s dropWhile_append3)
  then have "dropWhile P (rev (dropWhile P (rev s)))
      = dropWhile P (a @ b # rev (dropWhile P (rev c)))"
    by simp
  also from a b have "\<dots> = b # rev (dropWhile P (rev c))"
    by (simp add: dropWhile_append2)
  also from inner have "\<dots> = rev (dropWhile P (rev (b # c)))"
    by simp
  finally show ?thesis by (simp only: left)
qed

lemma trim_strip: "trim s = py_strip s"
  unfolding trim_def py_strip_def by (rule dropWhile_rev_commute)

lemma set_re_sub_ws: "set (re_sub_ws s) \<subseteq> insert 32 (set s)"
proof (induction s rule: re_sub_ws.induct)
  case 1
  then show ?case by simp
next
  case (2 c cs)
  have "set (dropWhile py_isspace cs) \<subseteq> set cs" by (rule set_dropWhileD [THEN subsetI])
  with 2 show ?case by auto
qed

lemma set_py_strip: "set (py_strip s) \<subseteq> set s"
  by (auto simp: py_strip_def dest!: set_dropWhileD)

lemma py_strip_trimmed: "trimmed (py_strip s)"
proof (cases "py_strip s = []")
  case True
  then show ?thesis by (simp add: trimmed_def)
next
  case False
  have h: "\<not> py_isspace (hd (py_strip s))"
    using False hd_dropWhile [of py_isspace "rev (dropWhile py_isspace (rev s))"]
    by (simp add: trim_strip [symmetric] trim_def)
  have l: "\<not> py_isspace (last (py_strip s))"
    using False hd_dropWhile [of py_isspace "rev (dropWhile py_isspace s)"]
    by (simp add: py_strip_def last_rev)
  from h l show ?thesis by (simp add: trimmed_def)
qed

lemma py_strip_id: "trimmed s \<Longrightarrow> py_strip s = s"
proof (cases s)
  case Nil
  then show ?thesis by (simp add: py_strip_def)
next
  case (Cons a t)
  assume "trimmed s"
  with Cons have a: "\<not> py_isspace a" and l: "\<not> py_isspace (last s)"
    by (auto simp: trimmed_def)
  from Cons have "rev s \<noteq> []" by simp
  then obtain z zs where r: "rev s = z # zs" by (cases "rev s") auto
  with l Cons have "\<not> py_isspace z" by (metis hd_rev list.sel(1) list.distinct(1))
  with r a Cons show ?thesis
    by (metis py_strip_def dropWhile.simps(2) rev_rev_ident)
qed

lemma re_sub_ws_last:
  "s \<noteq> [] \<Longrightarrow> \<not> py_isspace (last s) \<Longrightarrow>
   re_sub_ws s \<noteq> [] \<and> last (re_sub_ws s) = last s"
proof (induction s rule: re_sub_ws.induct)
  case 1
  then show ?case by simp
next
  case (2 c cs)
  show ?case
  proof (cases "py_isspace c")
    case True
    with 2(3,4) have ne: "cs \<noteq> []" and lc: "\<not> py_isspace (last cs)" by (auto split: if_splits)
    then have "last cs \<in> set cs" by simp
    with lc have ex: "\<exists>x \<in> set cs. \<not> py_isspace x" by blast
    then have dne: "dropWhile py_isspace cs \<noteq> []" by (simp add: dropWhile_eq_Nil_conv)
    obtain a b where ab: "cs = a @ b" "b = dropWhile py_isspace cs"
      by (metis takeWhile_dropWhile_id)
    with dne have dl: "last (dropWhile py_isspace cs) = last cs" by (metis last_appendR)
    from 2(1) [OF True dne] lc dl True ne show ?thesis by simp
  next
    case False
    show ?thesis
    proof (cases "cs = []")
      case True
      with False show ?thesis by simp
    next
      case ne: False
      with 2(4) have "\<not> py_isspace (last cs)" by simp
      from 2(2) [OF False ne this] False ne show ?thesis by simp
    qed
  qed
qed

lemma re_sub_ws_trimmed: "trimmed s \<Longrightarrow> trimmed (re_sub_ws s)"
proof (cases s)
  case Nil
  then show ?thesis by (simp add: trimmed_def)
next
  case (Cons a t)
  assume "trimmed s"
  with Cons have a: "\<not> py_isspace a" and l: "\<not> py_isspace (last s)"
    by (auto simp: trimmed_def)
  from Cons have "s \<noteq> []" by simp
  from re_sub_ws_last [OF this l] l have "\<not> py_isspace (last (re_sub_ws s))" by simp
  moreover from a Cons have "hd (re_sub_ws s) = a" by simp
  ultimately show ?thesis using a by (simp add: trimmed_def)
qed

lemma re_sub_ws_idem: "re_sub_ws (re_sub_ws s) = re_sub_ws s"
proof (induction s rule: re_sub_ws.induct)
  case 1
  then show ?case by simp
next
  case (2 c cs)
  show ?case
  proof (cases "py_isspace c")
    case True
    let ?d = "dropWhile py_isspace cs"
    have "dropWhile py_isspace (re_sub_ws ?d) = re_sub_ws ?d"
    proof (cases ?d)
      case Nil
      show ?thesis by (simp only: Nil re_sub_ws.simps dropWhile.simps)
    next
      case (Cons x xs)
      then have "\<not> py_isspace x" by (metis hd_dropWhile list.sel(1) list.distinct(1))
      with Cons show ?thesis by simp
    qed
    with True 2(1) show ?thesis by (simp add: isspace_32)
  next
    case False
    with 2(2) show ?thesis by simp
  qed
qed


section \<open>The normalizer against the documented algorithm\<close>

text \<open>
  C7, as stated: normalize is the documented algorithm with the canonical decomposition.
  The program calls the compatibility decomposition (NFKD), which also replaces
  characters such as the superscript two by their plain counterparts; the canonical one
  leaves them. On the text E=mc followed by U+00B2 the two differ.
\<close>

theorem normalize_not_canonical:
  "normalize_text ucd_excerpt [69, 61, 109, 99, 178] = ustr ''e=mc2''
   \<and> reference_normalize (nfd ucd_excerpt) ucd_excerpt [69, 61, 109, 99, 178]
       = ustr ''e=mc'' @ [178]
   \<and> normalize_text ucd_excerpt [69, 61, 109, 99, 178]
       \<noteq> reference_normalize (nfd ucd_excerpt) ucd_excerpt [69, 61, 109, 99, 178]"
  by (simp add: excerpt_simps text_simps reference_normalize_def trim_def)


text \<open>
  C7, amended. For every text, normalize equals the documented algorithm with the
  compatibility decomposition (NFKD) in step 2: empty input returns empty; otherwise
  decompose, drop the characters of non-zero combining class, lower-case, trim leading
  and trailing whitespace, and collapse every run of whitespace to a single space.
\<close>

theorem normalize_text_reference:
  "normalize_text U x = reference_normalize (nfkd U) U x"
  by (simp add: normalize_text_def reference_normalize_def trim_strip re_sub_ws_collapse)

section \<open>Idempotence of the normalizer\<close>

lemma normalize_text_plain:
  assumes "ucd_regular U"
  shows "\<forall>c \<in> set (normalize_text U x). plain_char U c"
proof (cases "x = []")
  case True
  then show ?thesis by (simp add: normalize_text_def)
next
  case False
  let ?z = "lower U (filter (\<lambda>ch. combining U ch = 0) (nfkd U x))"
  from assms have z: "\<forall>c \<in> set ?z. plain_char U c" and sp: "plain_char U 32"
    unfolding ucd_regular_def by blast+
  have "set (re_sub_ws (py_strip ?z)) \<subseteq> insert 32 (set ?z)"
    using set_re_sub_ws [of "py_strip ?z"] set_py_strip [of ?z] by blast
  with z sp have "\<forall>c \<in> set (re_sub_ws (py_strip ?z)). plain_char U c" by blast
  with False show ?thesis by (simp add: normalize_text_def Let_def)
qed

lemma normalize_text_fixed:
  assumes "ucd_regular U"
    and "\<forall>c \<in> set y. plain_char U c"
    and "trimmed y"
    and "re_sub_ws y = y"
  shows "normalize_text U y = y"
proof (cases "y = []")
  case True
  then show ?thesis by (simp add: normalize_text_def)
next
  case False
  from assms(1,2) have n: "nfkd U y = y" and l: "lower U y = y"
    unfolding ucd_regular_def by blast+
  from assms(2) have f: "filter (\<lambda>ch. combining U ch = 0) y = y"
    by (simp add: plain_char_def)
  from False show ?thesis
    by (simp add: normalize_text_def Let_def n f l py_strip_id [OF assms(3)] assms(4))
qed

lemma normalize_text_shape:
  "trimmed (normalize_text U x) \<and> re_sub_ws (normalize_text U x) = normalize_text U x"
proof (cases "x = []")
  case True
  then show ?thesis by (simp add: normalize_text_def trimmed_def)
next
  case False
  then show ?thesis
    by (simp add: normalize_text_def Let_def re_sub_ws_idem re_sub_ws_trimmed py_strip_trimmed)
qed

lemma excerpt_plain:
  "plain_char ucd_excerpt c \<longleftrightarrow> c \<notin> {201, 233, 178, 769} \<and> \<not> (65 \<le> c \<and> c \<le> 90)"
  by (auto simp: plain_char_def ucd_excerpt_def compat_decomp_def excerpt_combining_def
        excerpt_lower_def)

lemma excerpt_plain_fixed:
  "\<forall>c \<in> set s. plain_char ucd_excerpt c \<Longrightarrow>
   concat (map compat_decomp s) = s \<and> map excerpt_lower s = s"
proof (induction s)
  case Nil
  then show ?case by simp
next
  case (Cons c s)
  from Cons.prems have "plain_char ucd_excerpt c" by simp
  then have "compat_decomp c = [c]" "excerpt_lower c = c"
    by (simp_all add: plain_char_def ucd_excerpt_def)
  with Cons show ?case by simp
qed

lemma excerpt_output_plain:
  "c \<in> set (map excerpt_lower (filter (\<lambda>ch. excerpt_combining ch = 0) (concat (map compat_decomp x))))
   \<Longrightarrow> plain_char ucd_excerpt c"
proof -
  assume "c \<in> set (map excerpt_lower
      (filter (\<lambda>ch. excerpt_combining ch = 0) (concat (map compat_decomp x))))"
  then obtain d e where d: "d \<in> set x" and e: "e \<in> set (compat_decomp d)"
      and nc: "excerpt_combining e = 0" and c: "c = excerpt_lower e"
    by auto
  from e nc have "e \<notin> {201, 233, 178, 769}"
    by (auto simp: compat_decomp_def excerpt_combining_def split: if_splits)
  with c show ?thesis
    by (auto simp: excerpt_plain excerpt_lower_def split: if_splits)
qed

lemma ucd_excerpt_regular: "ucd_regular ucd_excerpt"
proof -
  have 1: "\<forall>s. (\<forall>c \<in> set s. plain_char ucd_excerpt c) \<longrightarrow>
      nfkd ucd_excerpt s = s \<and> lower ucd_excerpt s = s"
    using excerpt_plain_fixed by (simp add: ucd_excerpt_def)
  have 2: "\<forall>x. \<forall>c \<in> set (lower ucd_excerpt
      (filter (\<lambda>ch. combining ucd_excerpt ch = 0) (nfkd ucd_excerpt x))). plain_char ucd_excerpt c"
    using excerpt_output_plain by (simp add: ucd_excerpt_def)
  have 3: "plain_char ucd_excerpt 32" by (simp add: excerpt_plain)
  from 1 2 3 show ?thesis unfolding ucd_regular_def by blast
qed

lemma ucd_excerpt_cafe: "ucd_cafe ucd_excerpt"
  by (simp add: ucd_cafe_def excerpt_simps)

text \<open>
  C6. normalize is idempotent: normalizing a normalized text changes nothing; and CAFE
  with an acute accent on the E normalizes to cafe, as cafe does. The function takes the
  text and nothing else, so no locale enters. The Unicode tables are a parameter: the
  statement holds for all regular tables that hold the entries of the example.
\<close>

theorem normalize_idempotent:
  assumes "ucd_regular U" and "ucd_cafe U"
  shows "normalize_text U (normalize_text U x) = normalize_text U x
       \<and> normalize_text U (ustr ''CAF'' @ [201]) = ustr ''cafe''
       \<and> normalize_text U (ustr ''cafe'') = ustr ''cafe''"
proof (intro conjI)
  show "normalize_text U (normalize_text U x) = normalize_text U x"
    using normalize_text_fixed [OF assms(1) normalize_text_plain [OF assms(1)]]
      normalize_text_shape [of U x]
    by blast
next
  from assms(2) have "filter (\<lambda>ch. combining U ch = 0) (nfkd U [67, 65, 70, 201]) = [67, 65, 70, 69]"
    by (simp add: ucd_cafe_def)
  with assms(2) show "normalize_text U (ustr ''CAF'' @ [201]) = ustr ''cafe''"
    by (simp add: ucd_cafe_def normalize_text_def ustr_def py_strip_def py_isspace_def)
next
  from assms(2) have "filter (\<lambda>ch. combining U ch = 0) (nfkd U [99, 97, 102, 101]) = [99, 97, 102, 101]"
    by (simp add: ucd_cafe_def)
  with assms(2) show "normalize_text U (ustr ''cafe'') = ustr ''cafe''"
    by (simp add: ucd_cafe_def normalize_text_def ustr_def py_strip_def py_isspace_def)
qed

theorem normalize_idempotent_witness:
  "ucd_regular ucd_excerpt \<and> ucd_cafe ucd_excerpt
   \<and> normalize_text ucd_excerpt (ustr ''  Caf'' @ [201] @ ustr ''   au LAIT '') = ustr ''cafe au lait''
   \<and> normalize_text ucd_excerpt
        (normalize_text ucd_excerpt (ustr ''  Caf'' @ [201] @ ustr ''   au LAIT ''))
       = normalize_text ucd_excerpt (ustr ''  Caf'' @ [201] @ ustr ''   au LAIT '')
   \<and> normalize_text ucd_excerpt (ustr ''CAF'' @ [201]) = ustr ''cafe''
   \<and> normalize_text ucd_excerpt (ustr ''cafe'') = ustr ''cafe''"
proof -
  have v: "normalize_text ucd_excerpt (ustr ''  Caf'' @ [201] @ ustr ''   au LAIT '')
      = ustr ''cafe au lait''"
    by (simp add: excerpt_simps text_simps)
  from normalize_idempotent [OF ucd_excerpt_regular ucd_excerpt_cafe,
      of "ustr ''  Caf'' @ [201] @ ustr ''   au LAIT ''"] v ucd_excerpt_regular ucd_excerpt_cafe
  show ?thesis by blast
qed

section \<open>The moves of the Reorder Applicator\<close>

lemma moves_after_Nil: "moves_after previous [] = []"
  by (simp add: moves_after_def planned_moves_def split: option.splits)

lemma moves_after_Cons:
  "moves_after previous (item # items) =
     (case previous of None \<Rightarrow> MoveToHead item | Some p \<Rightarrow> MoveAfter item p)
       # moves_after (Some item) items"
  by (simp add: moves_after_def planned_moves_def split: option.splits)

lemma resolved_Nil: "resolved live [] = []"
  by (simp add: resolved_def)

lemma resolved_absent: "live i = None \<Longrightarrow> resolved live (i # ids) = resolved live ids"
  by (simp add: resolved_def dom_def)

lemma resolved_present:
  "live i = Some item \<Longrightarrow> resolved live (i # ids) = item # resolved live ids"
  by (simp add: resolved_def dom_def)

lemma reorder_loop_moves:
  "reorder_loop moveItem live previous playlist ids
     = run_moves moveItem playlist (moves_after previous (resolved live ids))"
proof (induction ids arbitrary: previous playlist)
  case Nil
  show ?case by (simp add: moves_after_Nil resolved_Nil)
next
  case (Cons i ids)
  show ?case
  proof (cases "live i")
    case None
    with Cons show ?thesis by (simp add: resolved_absent)
  next
    case (Some item)
    with Cons show ?thesis by (simp add: resolved_present moves_after_Cons split: sum.splits)
  qed
qed

text \<open>
  C9. The Reorder Applicator processes the target order from left to right with a
  previous cursor: whatever the target order, the live items and the remote server, the
  loop makes exactly the moves planned for the identifiers that resolve in the live
  item map, in target order: the first resolved item to the head, each later one after the
  item resolved before it. Identifiers absent from the live map play no part, and the
  only errors are those of the remote moves.
\<close>

theorem reorder_follows_target_order:
  "reorder moveItem live_items playlist ordered_ids
     = run_moves moveItem playlist
         (planned_moves (resolved (playlist_items_of Map.empty live_items) ordered_ids))"
  by (simp add: reorder_def reorder_loop_moves moves_after_def)


section \<open>The upload cache\<close>

lemma handle_keeps_uploads:
  "upload_id \<in> dom (UPLOAD_CACHE s) \<Longrightarrow> upload_id \<in> dom (UPLOAD_CACHE (handle s r))"
  by (cases r) (auto simp: cleanup_oauth_sessions_def Let_def)

lemma serve_keeps_uploads:
  "upload_id \<in> dom (UPLOAD_CACHE s) \<Longrightarrow> upload_id \<in> dom (UPLOAD_CACHE (serve s reqs))"
  unfolding serve_def
  by (induction reqs arbitrary: s) (simp_all add: handle_keeps_uploads)

text \<open>
  C10 says that an entry of the upload cache is evicted after a bounded time, so that a
  later lookup misses. In the program no handler removes an entry of \<open>UPLOAD_CACHE\<close>:
  once stored, an upload is found after any sequence of requests, whatever the clock
  shows. In the run below the upload is found 10^9 seconds later, while the OAuth
  session of that time has been evicted by \<open>cleanup_oauth_sessions\<close>.
\<close>

theorem upload_never_expires:
  "upload_id \<in> dom (UPLOAD_CACHE (serve (handle s (Upload upload_id parsed)) reqs))
   \<and> find_upload
       (serve empty_state
          [AuthStart 0 ''s1'', Upload ''u1'' [\<lparr>title = ustr ''Yesterday'', artist = ustr ''The Beatles''\<rparr>],
           AuthStart 1000000000 ''s2'', Preview ''u1''])
       ''u1''
     = Inr [\<lparr>title = ustr ''Yesterday'', artist = ustr ''The Beatles''\<rparr>]
     \<and> OAUTH_CACHE (serve empty_state
          [AuthStart 0 ''s1'', Upload ''u1'' [\<lparr>title = ustr ''Yesterday'', artist = ustr ''The Beatles''\<rparr>],
           AuthStart 1000000000 ''s2'', Preview ''u1'']) ''s1'' = None"
proof -
  have "upload_id \<in> dom (UPLOAD_CACHE (serve (handle s (Upload upload_id parsed)) reqs))"
    by (rule serve_keeps_uploads) simp
  then show ?thesis
    by (simp add: serve_def empty_state_def find_upload_def cleanup_oauth_sessions_def
          OAUTH_SESSION_TTL_SEC_def Let_def)
qed

end
